theory Spec2Isabelle
  imports Main
begin

section \<open>Python values\<close>

text \<open>
  The exceptions that the functions of \<^verbatim>\<open>prefect/utilities/collections.py\<close> and the
  library calls they make can raise. \<open>Raised\<close> is an exception of the caller's own
  \<open>visit_fn\<close>. \<open>TraversalError\<close> is the error named by the specification; no function
  below constructs it, as no line of the source raises it.
\<close>

datatype path_step = Index nat | Key string | Field string

datatype py_error =
    TypeError
  | ValueError
  | AttributeError
  | IndexError
  | KeyError
  | ValidationError
  | Raised string
  | TraversalError "path_step list"

datatype dict_type = Dict | OrderedDict

text \<open>
  A dataclass type: its name and \<open>fields(cls)\<close> in declaration order, each field with its
  \<open>init\<close> flag (whether the generated \<open>__init__\<close> takes it as a parameter).
\<close>

datatype dataclass_type =
  DataclassType (dataclass_name: string) (dataclass_fields: "(string \<times> bool) list")

text \<open>
  A pydantic model type: its name, \<open>__fields__\<close> in declaration order (the field name and
  the alias when \<open>has_alias\<close> holds), and the names in \<open>__private_attributes__\<close>.
\<close>

datatype model_type =
  ModelType (model_name: string) (type_fields: "(string \<times> string option) list")
    (private_attributes: "string list")

text \<open>
  The values \<open>visit_collection\<close> tells apart. A set is the list of its elements in
  iteration order; a dict is the list of its items in insertion order; an iterator is
  the list of the elements it has yet to yield. A dataclass instance carries its type
  and its attribute dictionary. A pydantic instance carries its type, \<open>__fields_set__\<close>,
  the instance dictionary (declared fields and extras), the defaults of the type's
  optional fields, and the values of the private attributes that are set.
  \<open>PAnnot\<close> is an instance of a subclass of \<open>BaseAnnotation\<close> other than \<open>revisit\<close>; the
  string names the subclass. \<open>PObj\<close> is any other object (a class object, an instance of
  a subclass of \<open>list\<close>, ...).
\<close>

datatype pyval =
    PNone
  | PInt int
  | PStr string
  | PObj string
  | PMock nat
  | PList "pyval list"
  | PTuple "pyval list"
  | PSet "pyval list"
  | PIter "pyval list"
  | PDict dict_type "(pyval \<times> pyval) list"
  | PDataclass dataclass_type "(string \<times> pyval) list"
  | PModel model_type "string list" "(string \<times> pyval) list" "(string \<times> pyval) list"
      "(string \<times> pyval) list"
  | PAnnot string pyval
  | PRevisit pyval

type_synonym items = "(pyval \<times> pyval) list"

subsection \<open>Hashing, sets and dicts\<close>

text \<open>
  \<open>hash(x)\<close> succeeds: lists, sets and dicts are unhashable, a tuple and an annotation
  (a named tuple) are hashable when their contents are, and dataclass and pydantic
  instances are unhashable under the default class options (\<open>eq=True\<close>, not frozen).
\<close>

fun hashable :: "pyval \<Rightarrow> bool" where
  "hashable (PList xs) = False"
| "hashable (PSet xs) = False"
| "hashable (PDict t kvs) = False"
| "hashable (PDataclass c as) = False"
| "hashable (PModel c fs d ds ps) = False"
| "hashable (PTuple xs) = (\<forall>x \<in> set xs. hashable x)"
| "hashable (PAnnot a v) = hashable v"
| "hashable (PRevisit v) = hashable v"
| "hashable v = True"

text \<open>\<open>d[k] = v\<close> on the items of a dict: an existing key keeps its position.\<close>

fun dict_setitem :: "('k \<times> 'v) list \<Rightarrow> 'k \<Rightarrow> 'v \<Rightarrow> ('k \<times> 'v) list" where
  "dict_setitem [] k v = [(k, v)]"
| "dict_setitem ((k', v') # kvs) k v =
     (if k' = k then (k, v) # kvs else (k', v') # dict_setitem kvs k v)"

text \<open>\<open>dict(pairs)\<close>, \<open>OrderedDict(pairs)\<close> and a dict comprehension: later pairs win.\<close>

definition dict_of_pairs :: "('k \<times> 'v) list \<Rightarrow> ('k \<times> 'v) list" where
  "dict_of_pairs kvs = foldl (\<lambda>d (k, v). dict_setitem d k v) [] kvs"

definition make_dict :: "dict_type \<Rightarrow> items \<Rightarrow> py_error + pyval" where
  "make_dict t kvs =
     (if \<forall>k \<in> set (map fst kvs). hashable k then Inr (PDict t (dict_of_pairs kvs))
      else Inl TypeError)"

text \<open>\<open>set(items)\<close>: the elements are hashed and duplicates are dropped.\<close>

definition make_set :: "pyval list \<Rightarrow> py_error + pyval" where
  "make_set xs =
     (if \<forall>x \<in> set xs. hashable x then Inr (PSet (rev (remdups (rev xs))))
      else Inl TypeError)"

subsection \<open>Records\<close>

text \<open>\<open>getattr(obj, name)\<close> on an attribute dictionary.\<close>

definition getattr :: "(string \<times> pyval) list \<Rightarrow> string \<Rightarrow> py_error + pyval" where
  "getattr attrs name = (case map_of attrs name of None \<Rightarrow> Inl AttributeError | Some v \<Rightarrow> Inr v)"

text \<open>
  The \<open>__init__\<close> that \<open>@dataclass\<close> generates, called with keyword arguments only: a
  keyword that is not an \<open>init\<close> field is a \<open>TypeError\<close>, and so is an \<open>init\<close> field that
  is not supplied (fields are taken to have no default). The new instance holds the
  \<open>init\<close> fields in declaration order.
\<close>

definition dataclass_init :: "dataclass_type \<Rightarrow> (string \<times> pyval) list \<Rightarrow> py_error + pyval" where
  "dataclass_init cls kwargs =
     (let params = map fst (filter snd (dataclass_fields cls)) in
      if (\<forall>k \<in> set (map fst kwargs). k \<in> set params) \<and> (\<forall>p \<in> set params. p \<in> set (map fst kwargs))
      then Inr (PDataclass cls (map (\<lambda>p. (p, the (map_of kwargs p))) params))
      else Inl TypeError)"

text \<open>
  \<open>BaseModel.__init__\<close> of pydantic, for a type that allows extras and whose fields
  accept any value: each declared field is looked up under its alias (its name when
  it has none); a field that is not supplied takes its default and stays out of
  \<open>__fields_set__\<close>, or is a \<open>ValidationError\<close> when it has no default; keywords that no
  field used become extras. Private attributes start unset here: the caller below
  assigns each of them.
\<close>

definition field_alias :: "string \<times> string option \<Rightarrow> string" where
  "field_alias f = (case snd f of None \<Rightarrow> fst f | Some a \<Rightarrow> a)"

definition model_init ::
  "model_type \<Rightarrow> (string \<times> pyval) list \<Rightarrow> (string \<times> pyval) list \<Rightarrow> py_error + pyval" where
  "model_init cls defaults kwargs =
     (let fs = type_fields cls;
          missing = filter (\<lambda>f. map_of kwargs (field_alias f) = None \<and> map_of defaults (fst f) = None) fs;
          supplied = filter (\<lambda>f. map_of kwargs (field_alias f) \<noteq> None) fs;
          extra = filter (\<lambda>(k, v). k \<notin> set (map field_alias supplied)) kwargs;
          declared = map (\<lambda>f. (fst f, case map_of kwargs (field_alias f) of
                                         Some v \<Rightarrow> v | None \<Rightarrow> the (map_of defaults (fst f)))) fs
      in if missing \<noteq> [] then Inl ValidationError
         else Inr (PModel cls (map fst supplied @ map fst extra) (declared @ extra) defaults []))"

subsection \<open>Annotations\<close>

text \<open>
  Modelled from the spec: \<open>prefect.utilities.annotations\<close> is not among the sources.
  A tagged wrapper "wraps exactly one inner value; exposes unwrap/rewrap", and rewrap
  "re-wraps the transformed inner value using the wrapper's own rewrap operation,
  preserving the wrapper's identity/kind but not its previous inner value".
\<close>

text \<open>
  The two are called on annotations only; on any other value the equations below are
  never used.
\<close>

fun unwrap :: "pyval \<Rightarrow> pyval" where
  "unwrap (PAnnot a v) = v"
| "unwrap (PRevisit v) = v"
| "unwrap v = v"

fun rewrap :: "pyval \<Rightarrow> pyval \<Rightarrow> pyval" where
  "rewrap (PAnnot a v) w = PAnnot a w"
| "rewrap (PRevisit v) w = PRevisit w"
| "rewrap v w = w"

fun is_revisit :: "pyval \<Rightarrow> bool" where
  "is_revisit (PRevisit v) = True"
| "is_revisit v = False"

section \<open>visit_collection\<close>

text \<open>
  The caller's \<open>visit_fn\<close>: a Python callable with effects. \<open>call1\<close> is the call
  \<open>visit_fn(expr)\<close>, \<open>call2\<close> the call \<open>visit_fn(expr, context)\<close>, which may mutate the
  context dict it is handed and returns it as it has become. The state \<open>'s\<close> is whatever
  else the callable can change (a log it appends to, a counter). A call returns a value
  or raises.
\<close>

record 's visitor =
  call1 :: "pyval \<Rightarrow> 's \<Rightarrow> (py_error + pyval) \<times> 's"
  call2 :: "pyval \<Rightarrow> items \<Rightarrow> 's \<Rightarrow> (py_error + pyval) \<times> items \<times> 's"

text \<open>
  The outcome of a call of \<open>visit_collection\<close>: the value returned or the exception
  raised, the caller's context dict as the call leaves it, and the visitor's state.
\<close>

type_synonym 's outcome = "(py_error + pyval) \<times> items option \<times> 's"

type_synonym 's nested = "pyval \<Rightarrow> 's \<Rightarrow> ((py_error + pyval) \<times> 's) option"

definition visit_expression :: "'s visitor \<Rightarrow> pyval \<Rightarrow> items option \<Rightarrow> 's \<Rightarrow> 's outcome" where
  "visit_expression visit_fn expr context s =
     (case context of
        Some c \<Rightarrow> (case call2 visit_fn expr c s of (r, c', s') \<Rightarrow> (r, Some c', s'))
      | None \<Rightarrow> (case call1 visit_fn expr s of (r, s') \<Rightarrow> (r, None, s')))"

text \<open>
  A list comprehension \<open>[visit_nested(o) for o in ...]\<close>: the children are produced and
  visited one after the other, and the first exception (of producing a child, or of
  visiting it) ends the comprehension. \<open>None\<close> is a nested call that does not return.
\<close>

fun visit_each ::
  "'s nested \<Rightarrow> (py_error + pyval) list \<Rightarrow> 's \<Rightarrow> ((py_error + pyval list) \<times> 's) option" where
  "visit_each visit_nested [] s = Some (Inr [], s)"
| "visit_each visit_nested (Inl e # cs) s = Some (Inl e, s)"
| "visit_each visit_nested (Inr c # cs) s =
     (case visit_nested c s of
        None \<Rightarrow> None
      | Some (Inl e, s') \<Rightarrow> Some (Inl e, s')
      | Some (Inr r, s') \<Rightarrow>
          (case visit_each visit_nested cs s' of
             None \<Rightarrow> None
           | Some (Inl e, s'') \<Rightarrow> Some (Inl e, s'')
           | Some (Inr rs, s'') \<Rightarrow> Some (Inr (r # rs), s'')))"

text \<open>What is done with the visited items: \<open>build items if return_data else None\<close>.\<close>

definition with_items ::
  "((py_error + pyval list) \<times> 's) option \<Rightarrow> bool \<Rightarrow> (pyval list \<Rightarrow> py_error + pyval) \<Rightarrow>
   ((py_error + pyval) \<times> 's) option" where
  "with_items r return_data build =
     (case r of
        None \<Rightarrow> None
      | Some (Inl e, s) \<Rightarrow> Some (Inl e, s)
      | Some (Inr items, s) \<Rightarrow> Some (if return_data then build items else Inr PNone, s))"

text \<open>The keys and values of a dict in the order the comprehension visits them.\<close>

fun dict_children :: "items \<Rightarrow> pyval list" where
  "dict_children [] = []"
| "dict_children ((k, v) # kvs) = k # v # dict_children kvs"

fun dict_pairs :: "pyval list \<Rightarrow> items" where
  "dict_pairs (k # v # xs) = (k, v) # dict_pairs xs"
| "dict_pairs xs = []"

text \<open>
  \<open>expr.__fields_set__.union(expr.__fields__)\<close>. Python leaves the iteration order of
  the resulting set open; the order taken here is \<open>__fields_set__\<close>, then the declared
  fields that are not in it.
\<close>

definition model_fields :: "model_type \<Rightarrow> string list \<Rightarrow> string list" where
  "model_fields cls fields_set =
     fields_set @ filter (\<lambda>n. n \<notin> set fields_set) (map fst (type_fields cls))"

text \<open>\<open>aliases.get(key) or key\<close>: an alias that is the empty string is falsy.\<close>

definition keyword :: "model_type \<Rightarrow> string \<Rightarrow> string" where
  "keyword cls key =
     (case map_of (type_fields cls) key of
        Some (Some alias) \<Rightarrow> if alias = [] then key else alias
      | _ \<Rightarrow> key)"

definition model_kwargs :: "model_type \<Rightarrow> string list \<Rightarrow> pyval list \<Rightarrow> (string \<times> pyval) list" where
  "model_kwargs cls keys items = dict_of_pairs (map (\<lambda>(key, value). (keyword cls key, value)) (zip keys items))"

text \<open>
  The loop over \<open>expr.__private_attributes__\<close>: each attribute is read from the original
  and written to the new instance with \<open>object.__setattr__\<close>.
\<close>

fun restore_private :: "string list \<Rightarrow> (string \<times> pyval) list \<Rightarrow> pyval \<Rightarrow> py_error + pyval" where
  "restore_private [] private model_instance = Inr model_instance"
| "restore_private (attr # attrs) private model_instance =
     (case getattr private attr of
        Inl e \<Rightarrow> Inl e
      | Inr v \<Rightarrow>
          (case model_instance of
             PModel c fs d ds ps \<Rightarrow> restore_private attrs private (PModel c fs d ds (dict_setitem ps attr v))
           | other \<Rightarrow> restore_private attrs private other))"

definition rebuild_model ::
  "model_type \<Rightarrow> string list \<Rightarrow> (string \<times> pyval) list \<Rightarrow> (string \<times> pyval) list \<Rightarrow>
   pyval list \<Rightarrow> py_error + pyval" where
  "rebuild_model cls keys defaults private items =
     (case model_init cls defaults (model_kwargs cls keys items) of
        Inl e \<Rightarrow> Inl e
      | Inr model_instance \<Rightarrow> restore_private (private_attributes cls) private model_instance)"

text \<open>
  The body of \<open>visit_collection\<close> below the depth check: \<open>expr\<close> is the expression as it
  stands after the assignment \<open>expr = result\<close> (when that is made), \<open>result\<close> is what
  \<open>visit_fn\<close> returned, and \<open>visit_nested\<close> is the recursive call.
\<close>

definition descend :: "'s nested \<Rightarrow> bool \<Rightarrow> pyval \<Rightarrow> pyval \<Rightarrow> 's \<Rightarrow> ((py_error + pyval) \<times> 's) option" where
  "descend visit_nested return_data expr result s =
     (case expr of
        PMock m \<Rightarrow> Some (Inr expr, s)
      | PList xs \<Rightarrow>
          with_items (visit_each visit_nested (map Inr xs) s) return_data (\<lambda>items. Inr (PList items))
      | PIter xs \<Rightarrow>
          with_items (visit_each visit_nested (map Inr xs) s) return_data (\<lambda>items. Inr (PList items))
      | PTuple xs \<Rightarrow>
          with_items (visit_each visit_nested (map Inr xs) s) return_data (\<lambda>items. Inr (PTuple items))
      | PSet xs \<Rightarrow>
          with_items (visit_each visit_nested (map Inr xs) s) return_data make_set
      | PDict t kvs \<Rightarrow>
          with_items (visit_each visit_nested (map Inr (dict_children kvs)) s) return_data
            (\<lambda>items. make_dict t (dict_pairs items))
      | PDataclass cls attrs \<Rightarrow>
          with_items (visit_each visit_nested (map (\<lambda>f. getattr attrs (fst f)) (dataclass_fields cls)) s)
            return_data
            (\<lambda>values. dataclass_init cls (dict_of_pairs (zip (map fst (dataclass_fields cls)) values)))
      | PModel cls fields_set dict defaults private \<Rightarrow>
          with_items (visit_each visit_nested (map (getattr dict) (model_fields cls fields_set)) s)
            return_data (rebuild_model cls (model_fields cls fields_set) defaults private)
      | PRevisit v \<Rightarrow> visit_nested (unwrap expr) s
      | PAnnot a v \<Rightarrow>
          (case visit_nested (unwrap expr) s of
             None \<Rightarrow> None
           | Some (Inl e, s') \<Rightarrow> Some (Inl e, s')
           | Some (Inr r, s') \<Rightarrow> Some (Inr (rewrap expr r), s'))
      | _ \<Rightarrow> Some (Inr (if return_data then result else PNone), s))"

text \<open>
  \<open>visit_collection\<close>. The first argument bounds the depth of the recursion: the value
  a visit descends into is what \<open>visit_fn\<close> returned, so the recursion need not end, and
  \<open>None\<close> is a call that does not return within the bound. A nested call is handed a
  copy of the context, and what it does to the copy is dropped.
\<close>

fun visit_collection ::
  "nat \<Rightarrow> 's visitor \<Rightarrow> bool \<Rightarrow> int \<Rightarrow> pyval \<Rightarrow> items option \<Rightarrow> 's \<Rightarrow> 's outcome option" where
  "visit_collection 0 visit_fn return_data max_depth expr context s = None"
| "visit_collection (Suc fuel) visit_fn return_data max_depth expr context s =
     (case visit_expression visit_fn expr context s of
        (Inl e, context', s') \<Rightarrow> Some (Inl e, context', s')
      | (Inr result, context', s') \<Rightarrow>
          if max_depth = 0 then Some (Inr (if return_data then result else PNone), context', s')
          else
            (case descend
                    (\<lambda>expr s. case visit_collection fuel visit_fn return_data (max_depth - 1) expr context' s of
                                 None \<Rightarrow> None
                               | Some (r, copied, s') \<Rightarrow> Some (r, s'))
                    return_data
                    (if return_data \<or> is_revisit result then result else expr)
                    result s' of
               None \<Rightarrow> None
             | Some (r, s'') \<Rightarrow> Some (r, context', s'')))"

section \<open>dict_to_flatdict and flatdict_to_dict\<close>









section \<open>batched_iterable\<close>

definition sys_maxsize :: int where
  "sys_maxsize = 2 ^ 63 - 1"

text \<open>
  \<open>tuple(itertools.islice(it, size))\<close> on an iterator with the elements \<open>it\<close> left: the batch
  and what is left after it, for \<open>size = n\<close>. \<open>islice\<close> raises \<open>ValueError\<close> unless
  \<open>0 \<le> size \<le> sys.maxsize\<close>.
\<close>

definition islice :: "'a list \<Rightarrow> int \<Rightarrow> py_error + 'a list \<times> 'a list" where
  "islice it n =
     (if n < 0 \<or> sys_maxsize < n then Inl ValueError
      else Inr (take (nat n) it, drop (nat n) it))"

text \<open>The batches the generator yields until it ends, or the exception that ends it.\<close>

function batched_iterable :: "'a list \<Rightarrow> int \<Rightarrow> py_error + 'a list list" where
  "batched_iterable it n =
     (case islice it n of
        Inl e \<Rightarrow> Inl e
      | Inr (batch, rest) \<Rightarrow>
          if batch = [] then Inr []
          else (case batched_iterable rest n of
                  Inl e \<Rightarrow> Inl e
                | Inr batches \<Rightarrow> Inr (batch # batches)))"
  by pat_completeness auto
termination
  by (relation "measure (\<lambda>(it, n). length it)") (auto simp: islice_def split: if_splits)

declare batched_iterable.simps [simp del]

section \<open>Visitors used in the examples\<close>

text \<open>\<open>lambda x: x\<close>, which also accepts a context and leaves it alone.\<close>

definition identity_fn :: "'s visitor" where
  "identity_fn = \<lparr>call1 = (\<lambda>x s. (Inr x, s)), call2 = (\<lambda>x c s. (Inr x, c, s))\<rparr>"


text \<open>A value with no children to visit that is not a mock.\<close>

fun is_leaf :: "pyval \<Rightarrow> bool" where
  "is_leaf PNone = True"
| "is_leaf (PInt i) = True"
| "is_leaf (PStr s) = True"
| "is_leaf (PObj n) = True"
| "is_leaf v = False"

text \<open>A visitor that records every node it is called on and returns it unchanged.\<close>

definition record_fn :: "pyval list visitor" where
  "record_fn =
     \<lparr>call1 = (\<lambda>x seen. (Inr x, seen @ [x])),
      call2 = (\<lambda>x context seen. (Inr x, context, seen @ [x]))\<rparr>"

text \<open>
  A visitor that records every node it is called on, answers the integer 5 with
  \<open>revisit([1, 2])\<close> and a \<open>revisit\<close> node with the integer 7, and returns any other node
  unchanged.
\<close>

fun signal :: "pyval \<Rightarrow> pyval" where
  "signal (PInt i) = (if i = 5 then PRevisit (PList [PInt 1, PInt 2]) else PInt i)"
| "signal (PRevisit v) = PInt 7"
| "signal x = x"

definition signal_fn :: "pyval list visitor" where
  "signal_fn =
     \<lparr>call1 = (\<lambda>x seen. (Inr (signal x), seen @ [x])),
      call2 = (\<lambda>x context seen. (Inr (signal x), context, seen @ [x]))\<rparr>"

text \<open>
  A visitor that records every node it is called on and returns a dict with the entry
  \<open>"marker": None\<close> added, any other node unchanged.
\<close>

fun add_marker :: "pyval \<Rightarrow> pyval" where
  "add_marker (PDict t kvs) = PDict t (dict_setitem kvs (PStr ''marker'') PNone)"
| "add_marker x = x"

definition add_marker_fn :: "pyval list visitor" where
  "add_marker_fn =
     \<lparr>call1 = (\<lambda>x seen. (Inr (add_marker x), seen @ [x])),
      call2 = (\<lambda>x context seen. (Inr (add_marker x), context, seen @ [x]))\<rparr>"



section \<open>Notions the properties are stated with\<close>

text \<open>The local function \<open>visit_nested\<close> of a call whose context is \<open>context\<close>.\<close>

definition visit_nested :: "nat \<Rightarrow> 's visitor \<Rightarrow> bool \<Rightarrow> int \<Rightarrow> items option \<Rightarrow> 's nested" where
  "visit_nested fuel visit_fn return_data max_depth context expr s =
     (case visit_collection fuel visit_fn return_data (max_depth - 1) expr context s of
        None \<Rightarrow> None
      | Some (r, copied, s') \<Rightarrow> Some (r, s'))"

text \<open>
  The expression a call descends into: \<open>expr\<close> after
  \<open>if return_data or isinstance(result, revisit): expr = result\<close>.
\<close>

definition basis :: "bool \<Rightarrow> pyval \<Rightarrow> pyval \<Rightarrow> pyval" where
  "basis return_data expr result = (if return_data \<or> is_revisit result then result else expr)"

text \<open>
  The children of an expression in the order in which they are visited; \<open>Inl e\<close> stands
  for a child that cannot be read (\<open>getattr\<close> raises \<open>e\<close>). A mock and a leaf have none.
\<close>

fun children :: "pyval \<Rightarrow> (py_error + pyval) list" where
  "children (PList xs) = map Inr xs"
| "children (PTuple xs) = map Inr xs"
| "children (PSet xs) = map Inr xs"
| "children (PIter xs) = map Inr xs"
| "children (PDict t kvs) = map Inr (dict_children kvs)"
| "children (PDataclass cls attrs) = map (\<lambda>f. getattr attrs (fst f)) (dataclass_fields cls)"
| "children (PModel cls fields_set dict defaults private) = map (getattr dict) (model_fields cls fields_set)"
| "children (PAnnot a v) = [Inr v]"
| "children (PRevisit v) = [Inr v]"
| "children v = []"

text \<open>A list, tuple, set, iterator, dict, dataclass instance or pydantic instance.\<close>

fun is_collection :: "pyval \<Rightarrow> bool" where
  "is_collection (PList xs) = True"
| "is_collection (PTuple xs) = True"
| "is_collection (PSet xs) = True"
| "is_collection (PIter xs) = True"
| "is_collection (PDict t kvs) = True"
| "is_collection (PDataclass cls attrs) = True"
| "is_collection (PModel cls fields_set dict defaults private) = True"
| "is_collection v = False"

text \<open>What a collection is rebuilt to from its visited children when data is returned.\<close>

fun recompose :: "pyval \<Rightarrow> pyval list \<Rightarrow> py_error + pyval" where
  "recompose (PList xs) items = Inr (PList items)"
| "recompose (PIter xs) items = Inr (PList items)"
| "recompose (PTuple xs) items = Inr (PTuple items)"
| "recompose (PSet xs) items = make_set items"
| "recompose (PDict t kvs) items = make_dict t (dict_pairs items)"
| "recompose (PDataclass cls attrs) items =
     dataclass_init cls (dict_of_pairs (zip (map fst (dataclass_fields cls)) items))"
| "recompose (PModel cls fields_set dict defaults private) items =
     rebuild_model cls (model_fields cls fields_set) defaults private items"
| "recompose v items = Inr v"

text \<open>A list nested \<open>d\<close> levels deep around \<open>x\<close>: \<open>[[...[x]...]]\<close>.\<close>

fun nest :: "nat \<Rightarrow> pyval \<Rightarrow> pyval" where
  "nest 0 x = x"
| "nest (Suc d) x = PList [nest d x]"

text \<open>
  How many levels below the root a visit with depth budget \<open>max_depth\<close> reaches in a
  structure that is \<open>d\<close> levels deep: all of them when the budget is negative.
\<close>

definition levels :: "int \<Rightarrow> nat \<Rightarrow> nat" where
  "levels max_depth d = (if max_depth < 0 then d else min d (nat max_depth))"

text \<open>The dict \<open>{"a": {"b": {"c": 1}}}\<close>.\<close>

definition nested_example :: pyval where
  "nested_example =
     PDict Dict [(PStr ''a'', PDict Dict [(PStr ''b'', PDict Dict [(PStr ''c'', PInt 1)])])]"










text \<open>
  The value with every non-empty dict in it (reached through dict values) made a dict
  of type \<open>typ\<close>: what \<open>flatdict_to_dict\<close> builds with \<open>typ()\<close>. An empty dict is a leaf of
  the flat dict and stays the object it is.
\<close>

fun rebuilt :: "dict_type \<Rightarrow> pyval \<Rightarrow> pyval" where
  "rebuilt typ (PDict t kvs) =
     (if kvs = [] then PDict t kvs else PDict typ (map (\<lambda>(k, v). (k, rebuilt typ v)) kvs))"
| "rebuilt typ v = v"






section \<open>Properties of batched_iterable\<close>

lemma batched_iterable_invalid:
  "n < 0 \<or> sys_maxsize < n \<Longrightarrow> batched_iterable xs n = Inl ValueError"
  by (subst batched_iterable.simps) (simp add: islice_def)

lemma batched_iterable_unfold:
  "0 \<le> n \<Longrightarrow> n \<le> sys_maxsize \<Longrightarrow>
   batched_iterable xs n =
     (if take (nat n) xs = [] then Inr []
      else case batched_iterable (drop (nat n) xs) n of
             Inl e \<Rightarrow> Inl e
           | Inr batches \<Rightarrow> Inr (take (nat n) xs # batches))"
  by (subst batched_iterable.simps) (simp add: islice_def)

lemma batched_iterable_zero: "batched_iterable xs 0 = Inr []"
  by (subst batched_iterable.simps) (simp add: islice_def sys_maxsize_def)

lemma batched_iterable_positive:
  assumes "0 < n" "n \<le> sys_maxsize"
  shows "\<exists>bs. batched_iterable xs n = Inr bs \<and> concat bs = xs
              \<and> (\<forall>b \<in> set bs. b \<noteq> [] \<and> length b \<le> nat n)
              \<and> (\<forall>b \<in> set (butlast bs). length b = nat n)"
proof (induction xs rule: length_induct)
  case (1 xs)
  show ?case
  proof (cases "xs = []")
    case True
    then show ?thesis using assms by (simp add: batched_iterable_unfold)
  next
    case False
    with assms have shorter: "length (drop (nat n) xs) < length xs" by simp
    from 1 shorter obtain bs where bs:
      "batched_iterable (drop (nat n) xs) n = Inr bs" "concat bs = drop (nat n) xs"
      "\<forall>b \<in> set bs. b \<noteq> [] \<and> length b \<le> nat n"
      "\<forall>b \<in> set (butlast bs). length b = nat n"
      by blast
    have first: "take (nat n) xs \<noteq> []" using False assms by simp
    have eq: "batched_iterable xs n = Inr (take (nat n) xs # bs)"
      using assms first bs(1) by (simp add: batched_iterable_unfold)
    have full: "bs \<noteq> [] \<Longrightarrow> length (take (nat n) xs) = nat n"
    proof -
      assume "bs \<noteq> []"
      with bs(2) bs(3) have "drop (nat n) xs \<noteq> []" by (cases bs) auto
      then show ?thesis by simp
    qed
    show ?thesis
      using eq bs(2) bs(3) bs(4) first full by (auto simp: min_def)
  qed
qed

text \<open>
  C8, as the specification states it, fails for size 0: \<open>islice(it, 0)\<close> is an empty
  batch, so the generator ends at once, having yielded nothing and raised nothing.
\<close>

theorem batch_size_zero_counterexample:
  "batched_iterable [1, 2, 3 :: int] 0 = Inr []"
  by (simp add: batched_iterable_zero)

text \<open>
  C8, amended. A negative size (or one above \<open>sys.maxsize\<close>) makes \<open>islice\<close> raise
  \<open>ValueError\<close> before any batch is yielded; size 0 yields no batch and raises nothing; a
  positive size yields consecutive batches that together are the input, none of them
  empty or longer than the size, and all but the last of exactly the size; and
  \<open>batched_iterable([1,2,3,4,5], 2)\<close> yields \<open>(1,2), (3,4), (5,)\<close>.
\<close>

theorem batched_iterable_batches:
  "(n < 0 \<or> sys_maxsize < n \<longrightarrow> batched_iterable xs n = Inl ValueError)
   \<and> batched_iterable xs 0 = Inr []
   \<and> (0 < n \<and> n \<le> sys_maxsize \<longrightarrow>
        (\<exists>bs. batched_iterable xs n = Inr bs \<and> concat bs = xs
              \<and> (\<forall>b \<in> set bs. b \<noteq> [] \<and> length b \<le> nat n)
              \<and> (\<forall>b \<in> set (butlast bs). length b = nat n)))
   \<and> batched_iterable [1, 2, 3, 4, 5 :: int] 2 = Inr [[1, 2], [3, 4], [5]]"
proof -
  have example: "batched_iterable [1, 2, 3, 4, 5 :: int] 2 = Inr [[1, 2], [3, 4], [5]]"
    by (simp add: batched_iterable.simps islice_def sys_maxsize_def)
  show ?thesis
    using batched_iterable_invalid [of n xs] batched_iterable_zero [of xs]
      batched_iterable_positive [of n xs] example
    by blast
qed

theorem batched_iterable_batches_witness:
  "batched_iterable [1 :: int] (- 1) = Inl ValueError
   \<and> (\<exists>bs. batched_iterable [1, 2, 3 :: int] 2 = Inr bs \<and> concat bs = [1, 2, 3]
            \<and> (\<forall>b \<in> set bs. b \<noteq> [] \<and> length b \<le> 2)
            \<and> (\<forall>b \<in> set (butlast bs). length b = 2))"
proof -
  have neg: "(- 1 :: int) < 0 \<or> sys_maxsize < - 1" by simp
  have pos: "(0 :: int) < 2 \<and> 2 \<le> sys_maxsize" by (simp add: sys_maxsize_def)
  show ?thesis
    using batched_iterable_batches [of "- 1" "[1 :: int]"]
      batched_iterable_batches [of 2 "[1, 2, 3 :: int]"] neg pos
    by simp
qed

section \<open>Properties of visit_collection\<close>

subsection \<open>Visiting the children\<close>



subsection \<open>The context\<close>







subsection \<open>One level of the recursion\<close>

lemma visit_collection_Suc:
  "visit_collection (Suc fuel) visit_fn return_data max_depth expr context s =
     (case visit_expression visit_fn expr context s of
        (Inl e, context', s') \<Rightarrow> Some (Inl e, context', s')
      | (Inr result, context', s') \<Rightarrow>
          if max_depth = 0 then Some (Inr (if return_data then result else PNone), context', s')
          else (case descend (visit_nested fuel visit_fn return_data max_depth context') return_data
                       (basis return_data expr result) result s' of
                  None \<Rightarrow> None
                | Some (r, s'') \<Rightarrow> Some (r, context', s'')))"
proof -
  have nested: "(\<lambda>expr s. case visit_collection fuel visit_fn return_data (max_depth - 1) expr c s of
                   None \<Rightarrow> None | Some (r, copied, s') \<Rightarrow> Some (r, s'))
                = visit_nested fuel visit_fn return_data max_depth c" for c
    by (intro ext) (simp add: visit_nested_def)
  show ?thesis
    by (simp add: nested basis_def split: prod.splits sum.splits)
qed

lemma visit_collection_descends:
  assumes "visit_expression visit_fn expr context s = (Inr result, context', s')" "max_depth \<noteq> 0"
  shows "visit_collection (Suc fuel) visit_fn return_data max_depth expr context s =
           (case descend (visit_nested fuel visit_fn return_data max_depth context') return_data
                   (basis return_data expr result) result s' of
              None \<Rightarrow> None
            | Some (r, s'') \<Rightarrow> Some (r, context', s''))"
  using assms by (simp add: visit_collection_Suc del: visit_collection.simps)

lemma descend_collection:
  assumes "is_collection expr"
  shows "descend nested return_data expr result s =
           with_items (visit_each nested (children expr) s) return_data (recompose expr)"
  using assms
  by (cases expr) (simp_all add: descend_def with_items_def split: option.splits prod.splits sum.splits)

lemma descend_revisit: "descend nested return_data (PRevisit v) result s = nested v s"
  by (simp add: descend_def)

lemma descend_annotation:
  "descend nested return_data (PAnnot a v) result s =
     (case nested v s of
        None \<Rightarrow> None
      | Some (Inl e, s') \<Rightarrow> Some (Inl e, s')
      | Some (Inr r, s') \<Rightarrow> Some (Inr (PAnnot a r), s'))"
  by (simp add: descend_def split: option.splits prod.splits sum.splits)

lemma descend_mock: "descend nested return_data (PMock m) result s = Some (Inr (PMock m), s)"
  by (simp add: descend_def)

lemma descend_leaf:
  "is_leaf expr \<Longrightarrow> descend nested return_data expr result s = Some (Inr (if return_data then result else PNone), s)"
  by (cases expr) (simp_all add: descend_def)

subsection \<open>Observe-only mode\<close>

text \<open>
  C5 does not hold of the code. With \<open>return_data=False\<close> a mock root is returned as it
  is (the branch for mocks has no \<open>if return_data else None\<close>), and an annotation root
  is returned rewrapped around the \<open>None\<close> of the nested call.
\<close>

theorem observe_mode_returns_value:
  "visit_collection 1 identity_fn False (- 1) (PMock 0) None () = Some (Inr (PMock 0), None, ())
   \<and> visit_collection 2 identity_fn False (- 1) (PAnnot ''quote'' (PInt 1)) None ()
       = Some (Inr (PAnnot ''quote'' PNone), None, ())"
  by (simp add: numeral_2_eq_2 visit_expression_def identity_fn_def descend_def)

subsection \<open>The revisit signal\<close>

text \<open>
  C6, as the specification states it, fails in three ways. In observe mode the integer 5
  is no signal, yet the \<open>revisit([1, 2])\<close> the transform returns for it is descended into.
  In observe mode a \<open>revisit(1)\<close> node that the transform answers with 7 is still the
  expression descended into: its payload is visited. And with depth budget 0 a
  returned signal is not recursed into at all: copy mode hands it back as it is.
\<close>

theorem resume_signal_counterexample:
  "visit_collection 3 signal_fn False (- 1) (PInt 5) None []
     = Some (Inr PNone, None, [PInt 5, PList [PInt 1, PInt 2], PInt 1, PInt 2])
   \<and> visit_collection 2 signal_fn False (- 1) (PRevisit (PInt 1)) None []
     = Some (Inr PNone, None, [PRevisit (PInt 1), PInt 1])
   \<and> visit_collection 3 signal_fn True 0 (PInt 5) None []
     = Some (Inr (PRevisit (PList [PInt 1, PInt 2])), None, [PInt 5])"
  by (simp add: numeral_3_eq_3 numeral_2_eq_2 visit_expression_def signal_fn_def descend_def with_items_def)

text \<open>
  C6, amended. With \<open>r\<close> what the transform returned for the node and a depth budget
  other than 0, the visit goes on with \<open>basis return_data node r\<close>, which is \<open>r\<close> exactly when
  data is returned or \<open>r\<close> itself is a \<open>revisit\<close> (or \<open>r\<close> is the node anyway); and when that
  expression is a \<open>revisit\<close>, in either mode, the outcome of the visit is the outcome of
  the nested visit of its payload, handed on as it is.
\<close>

theorem resume_signal_handling:
  "visit_expression visit_fn node context s = (Inr r, context', s') \<and> max_depth \<noteq> 0 \<longrightarrow>
     visit_collection (Suc fuel) visit_fn return_data max_depth node context s
       = (case descend (visit_nested fuel visit_fn return_data max_depth context') return_data
                 (basis return_data node r) r s' of
            None \<Rightarrow> None
          | Some (v, s'') \<Rightarrow> Some (v, context', s''))
     \<and> (basis return_data node r = r \<longleftrightarrow> return_data \<or> is_revisit r \<or> node = r)
     \<and> (is_revisit (basis return_data node r) \<longrightarrow>
          visit_collection (Suc fuel) visit_fn return_data max_depth node context s
            = (case visit_nested fuel visit_fn return_data max_depth context'
                      (unwrap (basis return_data node r)) s' of
                 None \<Rightarrow> None
               | Some (v, s'') \<Rightarrow> Some (v, context', s'')))"
proof (intro impI conjI)
  assume a: "visit_expression visit_fn node context s = (Inr r, context', s') \<and> max_depth \<noteq> 0"
  then show unfolded: "visit_collection (Suc fuel) visit_fn return_data max_depth node context s
       = (case descend (visit_nested fuel visit_fn return_data max_depth context') return_data
                 (basis return_data node r) r s' of
            None \<Rightarrow> None
          | Some (v, s'') \<Rightarrow> Some (v, context', s''))"
    by (simp add: visit_collection_descends del: visit_collection.simps)
  show "basis return_data node r = r \<longleftrightarrow> return_data \<or> is_revisit r \<or> node = r"
    by (auto simp: basis_def)
  assume "is_revisit (basis return_data node r)"
  then obtain p where "basis return_data node r = PRevisit p"
    by (cases "basis return_data node r") simp_all
  then show "visit_collection (Suc fuel) visit_fn return_data max_depth node context s
            = (case visit_nested fuel visit_fn return_data max_depth context'
                      (unwrap (basis return_data node r)) s' of
                 None \<Rightarrow> None
               | Some (v, s'') \<Rightarrow> Some (v, context', s''))"
    using unfolded by (simp add: descend_revisit del: visit_collection.simps)
qed

theorem resume_signal_handling_witness:
  "visit_expression signal_fn (PInt 5) None [] = (Inr (PRevisit (PList [PInt 1, PInt 2])), None, [PInt 5])
   \<and> (- 1 :: int) \<noteq> 0
   \<and> is_revisit (basis False (PInt 5) (PRevisit (PList [PInt 1, PInt 2])))
   \<and> visit_collection (Suc 2) signal_fn False (- 1) (PInt 5) None []
      = (case visit_nested 2 signal_fn False (- 1) None
                (unwrap (basis False (PInt 5) (PRevisit (PList [PInt 1, PInt 2])))) [PInt 5] of
           None \<Rightarrow> None
         | Some (v, s'') \<Rightarrow> Some (v, None, s''))"
proof -
  have root: "visit_expression signal_fn (PInt 5) None []
              = (Inr (PRevisit (PList [PInt 1, PInt 2])), None, [PInt 5]) \<and> (- 1 :: int) \<noteq> 0"
    by (simp add: visit_expression_def signal_fn_def)
  have signal: "is_revisit (basis False (PInt 5) (PRevisit (PList [PInt 1, PInt 2])))"
    by (simp add: basis_def)
  note inst = resume_signal_handling [of signal_fn "PInt 5" None "[]" "PRevisit (PList [PInt 1, PInt 2])"
      None "[PInt 5]" "- 1" 2 False]
  from inst [THEN mp, OF root] have
    "is_revisit (basis False (PInt 5) (PRevisit (PList [PInt 1, PInt 2]))) \<longrightarrow>
     visit_collection (Suc 2) signal_fn False (- 1) (PInt 5) None []
      = (case visit_nested 2 signal_fn False (- 1) None
                (unwrap (basis False (PInt 5) (PRevisit (PList [PInt 1, PInt 2])))) [PInt 5] of
           None \<Rightarrow> None
         | Some (v, s'') \<Rightarrow> Some (v, None, s''))"
    by blast
  with signal root show ?thesis by blast
qed

subsection \<open>Iterators\<close>

text \<open>
  C10, as stated for every iterator met, fails at depth budget 0: the call returns
  before the expression is classified, so the iterator is not iterated, and copy mode
  returns the iterator itself.
\<close>

theorem iterator_counterexample:
  "visit_collection 3 identity_fn True 0 (PIter [PInt 1, PInt 2]) None ()
     = Some (Inr (PIter [PInt 1, PInt 2]), None, ())
   \<and> visit_collection 3 record_fn False 0 (PIter [PInt 1, PInt 2]) None []
     = Some (Inr PNone, None, [PIter [PInt 1, PInt 2]])"
  by (simp add: numeral_3_eq_3 visit_expression_def identity_fn_def record_fn_def)

text \<open>
  C10, amended. When the depth budget is not 0 and the expression descended into is an
  iterator, every element it has left is visited, in order and up to the first
  exception, in both modes; in copy mode the node returned is the plain list of the
  visited elements; and the descent is the one made for the list of those elements.
\<close>

theorem iterator_as_list:
  "(visit_expression visit_fn node context s = (Inr r, context', s') \<and> max_depth \<noteq> 0
      \<and> basis return_data node r = PIter xs \<longrightarrow>
     visit_collection (Suc fuel) visit_fn return_data max_depth node context s
       = (case visit_each (visit_nested fuel visit_fn return_data max_depth context') (map Inr xs) s' of
            None \<Rightarrow> None
          | Some (Inl e, s'') \<Rightarrow> Some (Inl e, context', s'')
          | Some (Inr items, s'') \<Rightarrow> Some (Inr (if return_data then PList items else PNone), context', s'')))
   \<and> descend nested return_data (PIter xs) r s' = descend nested return_data (PList xs) r s'"
  by (auto simp: visit_collection_descends descend_def with_items_def
           simp del: visit_collection.simps split: option.splits sum.splits prod.splits)

theorem iterator_as_list_witness:
  "visit_expression identity_fn (PIter [PInt 1, PInt 2]) None () = (Inr (PIter [PInt 1, PInt 2]), None, ())
   \<and> (- 1 :: int) \<noteq> 0
   \<and> basis True (PIter [PInt 1, PInt 2]) (PIter [PInt 1, PInt 2]) = PIter [PInt 1, PInt 2]
   \<and> visit_collection (Suc 1) identity_fn True (- 1) (PIter [PInt 1, PInt 2]) None ()
      = Some (Inr (PList [PInt 1, PInt 2]), None, ())"
proof -
  have root: "visit_expression identity_fn (PIter [PInt 1, PInt 2]) None ()
              = (Inr (PIter [PInt 1, PInt 2]), None, ()) \<and> (- 1 :: int) \<noteq> 0
              \<and> basis True (PIter [PInt 1, PInt 2]) (PIter [PInt 1, PInt 2]) = PIter [PInt 1, PInt 2]"
    by (simp add: visit_expression_def identity_fn_def basis_def)
  have each: "visit_each (visit_nested 1 identity_fn True (- 1) None) (map Inr [PInt 1, PInt 2]) ()
              = Some (Inr [PInt 1, PInt 2], ())"
    by (simp add: visit_nested_def visit_expression_def identity_fn_def descend_def)
  show ?thesis
    using iterator_as_list [of identity_fn "PIter [PInt 1, PInt 2]" None "()" "PIter [PInt 1, PInt 2]"
        None "()" "- 1" True "[PInt 1, PInt 2]" 1] root each
    by (simp del: visit_collection.simps)
qed

subsection \<open>Failures\<close>

lemma visit_each_error:
  "visit_each nested cs s = Some (Inl e, s') \<Longrightarrow>
   Inl e \<in> set cs \<or> (\<exists>c t. Inr c \<in> set cs \<and> nested c t = Some (Inl e, s'))"
proof (induction nested cs s rule: visit_each.induct)
  case (1 visit_nested s)
  then show ?case by simp
next
  case (2 visit_nested e cs s)
  then show ?case by simp
next
  case (3 visit_nested c cs s)
  then show ?case
    by (fastforce split: option.splits sum.splits prod.splits)
qed

lemma getattr_error: "getattr attrs name = Inl e \<Longrightarrow> e = AttributeError"
  by (simp add: getattr_def split: option.splits)

lemma restore_private_error:
  "restore_private attrs private m = Inl e \<Longrightarrow> e = AttributeError"
  by (induction attrs "private" m rule: restore_private.induct)
     (auto dest: getattr_error split: sum.splits pyval.splits)

lemma recompose_error:
  "recompose b items = Inl e \<Longrightarrow> e = TypeError \<or> e = ValidationError \<or> e = AttributeError"
  by (cases b)
     (auto simp: make_set_def make_dict_def dataclass_init_def rebuild_model_def model_init_def Let_def
           dest: restore_private_error split: if_splits sum.splits)

lemma children_error: "Inl e \<in> set (children b) \<Longrightarrow> e = AttributeError"
  by (cases b) (auto dest: getattr_error [OF sym])

lemma descend_error:
  assumes "descend nested return_data b r s = Some (Inl e, s')"
  shows "e = TypeError \<or> e = ValidationError \<or> e = AttributeError
         \<or> (\<exists>c t. nested c t = Some (Inl e, s'))"
proof (cases "is_collection b")
  case True
  with assms have w: "with_items (visit_each nested (children b) s) return_data (recompose b) = Some (Inl e, s')"
    by (simp add: descend_collection)
  then show ?thesis
    by (auto simp: with_items_def split: option.splits sum.splits prod.splits if_splits
             dest: recompose_error children_error dest!: visit_each_error)
next
  case False
  with assms show ?thesis
    by (cases b) (auto simp: descend_def split: option.splits sum.splits prod.splits)
qed

lemma visit_collection_error:
  assumes "\<And>x t. fst (call1 visit_fn x t) \<noteq> Inl (TraversalError p)"
    and "\<And>x c t. fst (call2 visit_fn x c t) \<noteq> Inl (TraversalError p)"
  shows "visit_collection fuel visit_fn return_data max_depth node context s \<noteq> Some (Inl (TraversalError p), c', s')"
proof (induction fuel arbitrary: max_depth node "context" s c' s')
  case 0
  then show ?case by simp
next
  case (Suc fuel)
  show ?case
  proof
    assume failed: "visit_collection (Suc fuel) visit_fn return_data max_depth node context s
                    = Some (Inl (TraversalError p), c', s')"
    obtain r c1 s1 where root: "visit_expression visit_fn node context s = (r, c1, s1)"
      by (cases "visit_expression visit_fn node context s") auto
    have r_ok: "r \<noteq> Inl (TraversalError p)"
    proof
      assume "r = Inl (TraversalError p)"
      with root have "(\<exists>c. fst (call2 visit_fn node c s) = Inl (TraversalError p))
                      \<or> fst (call1 visit_fn node s) = Inl (TraversalError p)"
        by (auto simp: visit_expression_def split: option.splits prod.splits) (metis fst_conv)
      with assms show False by blast
    qed
    then obtain result where r: "r = Inr result"
      using failed root by (cases r) (auto simp: visit_collection_Suc simp del: visit_collection.simps)
    from failed root r obtain s2 where
      "descend (visit_nested fuel visit_fn return_data max_depth c1) return_data
         (basis return_data node result) result s1 = Some (Inl (TraversalError p), s2)"
      by (auto simp: visit_collection_Suc simp del: visit_collection.simps
               split: if_splits option.splits)
    from descend_error [OF this] obtain c t where
      "visit_nested fuel visit_fn return_data max_depth c1 c t = Some (Inl (TraversalError p), s2)"
      by auto
    then show False
      using Suc.IH by (auto simp: visit_nested_def split: option.splits)
  qed
qed

text \<open>
  C7, as the specification states it, fails: the source raises no \<open>TraversalError\<close> and
  keeps no path. A dataclass with a field that \<open>__init__\<close> does not take cannot be rebuilt
  from all its fields; inside a list, the visit ends with the constructor's \<open>TypeError\<close>.
\<close>

theorem traversal_error_counterexample:
  "visit_collection 3 identity_fn True (- 1)
     (PList [PDataclass (DataclassType ''P'' [(''x'', True), (''y'', False)])
               [(''x'', PInt 1), (''y'', PInt 2)]]) None ()
   = Some (Inl TypeError, None, ())"
  by (simp add: numeral_3_eq_3 visit_expression_def identity_fn_def descend_def with_items_def
        getattr_def dataclass_init_def dict_of_pairs_def)

text \<open>
  C7, amended. When the depth budget is not 0: if a child of the expression descended
  into cannot be read, or the nested visit of a child fails, the visit fails with that
  very exception; if, in copy mode, rebuilding the collection from the visited children
  fails, the visit fails with the constructor's exception. Either way the outcome is
  the exception and no value. And a visit never ends in a \<open>TraversalError\<close> unless
  \<open>visit_fn\<close> itself raises one.
\<close>

theorem traversal_failure_propagates:
  "(visit_expression visit_fn node context s = (Inr r, context', s') \<and> max_depth \<noteq> 0 \<longrightarrow>
      (visit_each (visit_nested fuel visit_fn return_data max_depth context')
           (children (basis return_data node r)) s' = Some (Inl e, s'')
         \<longrightarrow> visit_collection (Suc fuel) visit_fn return_data max_depth node context s
              = Some (Inl e, context', s''))
      \<and> (is_collection (basis return_data node r) \<and> return_data
         \<and> visit_each (visit_nested fuel visit_fn return_data max_depth context')
              (children (basis return_data node r)) s' = Some (Inr items, s'')
         \<and> recompose (basis return_data node r) items = Inl e
         \<longrightarrow> visit_collection (Suc fuel) visit_fn return_data max_depth node context s
              = Some (Inl e, context', s'')))
   \<and> ((\<forall>x c t. fst (call1 visit_fn x t) \<noteq> Inl (TraversalError p)
                \<and> fst (call2 visit_fn x c t) \<noteq> Inl (TraversalError p))
        \<longrightarrow> visit_collection k visit_fn return_data max_depth node context s
             \<noteq> Some (Inl (TraversalError p), c', t'))"
proof (intro conjI impI)
  assume a: "visit_expression visit_fn node context s = (Inr r, context', s') \<and> max_depth \<noteq> 0"
  let ?b = "basis return_data node r"
  let ?nested = "visit_nested fuel visit_fn return_data max_depth context'"
  have unfolded: "visit_collection (Suc fuel) visit_fn return_data max_depth node context s
       = (case descend ?nested return_data ?b r s' of
            None \<Rightarrow> None
          | Some (v, s'') \<Rightarrow> Some (v, context', s''))"
    using a by (simp add: visit_collection_descends del: visit_collection.simps)
  {
    assume child: "visit_each ?nested (children ?b) s' = Some (Inl e, s'')"
    have "descend ?nested return_data ?b r s' = Some (Inl e, s'')"
    proof (cases "is_collection ?b")
      case True
      with child show ?thesis by (simp add: descend_collection with_items_def)
    next
      case False
      with child show ?thesis
        by (cases ?b) (auto simp: descend_def split: option.splits sum.splits prod.splits)
    qed
    then show "visit_collection (Suc fuel) visit_fn return_data max_depth node context s
               = Some (Inl e, context', s'')"
      using unfolded by simp
  }
  {
    assume b: "is_collection ?b \<and> return_data
            \<and> visit_each ?nested (children ?b) s' = Some (Inr items, s'') \<and> recompose ?b items = Inl e"
    then have "descend ?nested return_data ?b r s'
               = with_items (visit_each ?nested (children ?b) s') return_data (recompose ?b)"
      by (intro descend_collection) blast
    moreover from b have "return_data" "recompose ?b items = Inl e"
      "visit_each ?nested (children ?b) s' = Some (Inr items, s'')"
      by blast+
    ultimately have "descend ?nested return_data ?b r s' = Some (Inl e, s'')"
      by (simp add: with_items_def)
    then show "visit_collection (Suc fuel) visit_fn return_data max_depth node context s
               = Some (Inl e, context', s'')"
      using unfolded by simp
  }
next
  assume "\<forall>x c t. fst (call1 visit_fn x t) \<noteq> Inl (TraversalError p)
                \<and> fst (call2 visit_fn x c t) \<noteq> Inl (TraversalError p)"
  then show "visit_collection k visit_fn return_data max_depth node context s
             \<noteq> Some (Inl (TraversalError p), c', t')"
    by (intro visit_collection_error) blast+
qed

theorem traversal_failure_propagates_witness:
  "visit_collection (Suc 1) identity_fn True (- 1)
     (PDataclass (DataclassType ''P'' [(''x'', True), (''y'', False)]) [(''x'', PInt 1), (''y'', PInt 2)])
     None () = Some (Inl TypeError, None, ())
   \<and> visit_collection (Suc 1) identity_fn False (- 1)
       (PDataclass (DataclassType ''P'' [(''x'', True)]) []) None () = Some (Inl AttributeError, None, ())
   \<and> visit_collection 3 identity_fn True (- 1)
       (PList [PDataclass (DataclassType ''P'' [(''x'', True), (''y'', False)])
                 [(''x'', PInt 1), (''y'', PInt 2)]]) None ()
     \<noteq> Some (Inl (TraversalError [Index 0]), None, ())"
proof -
  let ?d2 = "PDataclass (DataclassType ''P'' [(''x'', True), (''y'', False)]) [(''x'', PInt 1), (''y'', PInt 2)]"
  let ?d1 = "PDataclass (DataclassType ''P'' [(''x'', True)]) []"
  have root2: "visit_expression identity_fn ?d2 None () = (Inr ?d2, None, ()) \<and> (- 1 :: int) \<noteq> 0"
    by (simp add: visit_expression_def identity_fn_def)
  have rebuilt: "is_collection (basis True ?d2 ?d2) \<and> True
      \<and> visit_each (visit_nested 1 identity_fn True (- 1) None) (children (basis True ?d2 ?d2)) ()
         = Some (Inr [PInt 1, PInt 2], ())
      \<and> recompose (basis True ?d2 ?d2) [PInt 1, PInt 2] = Inl TypeError"
    by (simp add: basis_def getattr_def visit_nested_def visit_expression_def identity_fn_def descend_def
          dataclass_init_def dict_of_pairs_def)
  have first: "visit_collection (Suc 1) identity_fn True (- 1) ?d2 None () = Some (Inl TypeError, None, ())"
    using traversal_failure_propagates [of identity_fn ?d2 None "()" ?d2 None "()" "- 1" 1 True
        TypeError "()" "[PInt 1, PInt 2]" "[]" 0 None "()"] root2 rebuilt
    by blast
  have root1: "visit_expression identity_fn ?d1 None () = (Inr ?d1, None, ()) \<and> (- 1 :: int) \<noteq> 0"
    by (simp add: visit_expression_def identity_fn_def)
  have unread: "visit_each (visit_nested 1 identity_fn False (- 1) None) (children (basis False ?d1 ?d1)) ()
         = Some (Inl AttributeError, ())"
    by (simp add: basis_def getattr_def)
  have second: "visit_collection (Suc 1) identity_fn False (- 1) ?d1 None () = Some (Inl AttributeError, None, ())"
    using traversal_failure_propagates [of identity_fn ?d1 None "()" ?d1 None "()" "- 1" 1 False
        AttributeError "()" "[]" "[]" 0 None "()"] root1 unread
    by blast
  have quiet: "\<forall>x c t. fst (call1 (identity_fn :: unit visitor) x t) \<noteq> Inl (TraversalError [Index 0])
                \<and> fst (call2 (identity_fn :: unit visitor) x c t) \<noteq> Inl (TraversalError [Index 0])"
    by (simp add: identity_fn_def)
  have third: "visit_collection 3 identity_fn True (- 1) (PList [?d2]) None ()
     \<noteq> Some (Inl (TraversalError [Index 0]), None, ())"
    using traversal_failure_propagates [of identity_fn "PList [?d2]" None "()" ?d2 None "()" "- 1" 1 True
        TypeError "()" "[]" "[Index 0]" 3 None "()"] quiet
    by blast
  show ?thesis using first second third by blast
qed

subsection \<open>The depth budget\<close>

lemma visit_collection_depth_zero:
  "visit_collection (Suc fuel) visit_fn return_data 0 expr context s =
     (case visit_expression visit_fn expr context s of
        (Inl e, context', s') \<Rightarrow> Some (Inl e, context', s')
      | (Inr result, context', s') \<Rightarrow> Some (Inr (if return_data then result else PNone), context', s'))"
  by (simp add: visit_collection_Suc del: visit_collection.simps split: prod.splits sum.splits)

lemma visit_each_returns:
  assumes "\<And>c s. nested c s \<noteq> None"
  shows "visit_each nested cs s \<noteq> None"
proof (induction cs arbitrary: s)
  case Nil
  show ?case by simp
next
  case (Cons a cs)
  show ?case
  proof (cases a)
    case (Inl e)
    then show ?thesis by simp
  next
    case (Inr c)
    from assms [of c s] obtain r s' where "nested c s = Some (r, s')" by auto
    then show ?thesis
      using Inr Cons.IH [of s'] by (cases r) (auto split: option.splits sum.splits prod.splits)
  qed
qed

lemma descend_returns:
  assumes "\<And>c s. nested c s \<noteq> None"
  shows "descend nested return_data b r s \<noteq> None"
proof (cases "is_collection b")
  case True
  then show ?thesis
    using visit_each_returns [of nested "children b" s, OF assms]
    by (auto simp: descend_collection with_items_def split: option.splits sum.splits prod.splits)
next
  case False
  then show ?thesis
    using assms by (cases b) (auto simp: descend_def split: option.splits sum.splits prod.splits)
qed

lemma depth_budget_bounds_recursion:
  "0 \<le> max_depth \<Longrightarrow> nat max_depth < fuel \<Longrightarrow>
   visit_collection fuel visit_fn return_data max_depth expr context s \<noteq> None"
proof (induction fuel arbitrary: max_depth expr "context" s)
  case 0
  then show ?case by simp
next
  case (Suc fuel)
  obtain r c1 s1 where root: "visit_expression visit_fn expr context s = (r, c1, s1)"
    by (cases "visit_expression visit_fn expr context s") auto
  show ?case
  proof (cases "max_depth = 0 \<or> (\<exists>e. r = Inl e)")
    case True
    then show ?thesis using root
      by (auto simp: visit_collection_Suc simp del: visit_collection.simps split: sum.splits)
  next
    case False
    then obtain result where r: "r = Inr result" by (cases r) auto
    from False Suc.prems have "0 \<le> max_depth - 1" "nat (max_depth - 1) < fuel" by auto
    then have "\<And>c t. visit_nested fuel visit_fn return_data max_depth c1 c t \<noteq> None"
      using Suc.IH by (auto simp: visit_nested_def split: option.splits)
    from descend_returns [of "visit_nested fuel visit_fn return_data max_depth c1", OF this]
    show ?thesis using root r False
      by (auto simp: visit_collection_Suc simp del: visit_collection.simps split: option.splits)
  qed
qed

lemma record_fn_leaf:
  assumes "is_leaf x"
  shows "visit_collection (Suc fuel) record_fn return_data max_depth x context seen
         = Some (Inr (if return_data then x else PNone), context, seen @ [x])"
  using assms
  by (cases x; cases "context") (auto simp: visit_expression_def record_fn_def descend_def basis_def)

lemma record_fn_root:
  "visit_expression record_fn x context seen = (Inr x, context, seen @ [x])"
  by (cases "context") (simp_all add: visit_expression_def record_fn_def)

lemma levels_Suc: "max_depth \<noteq> 0 \<Longrightarrow> levels max_depth (Suc d) = Suc (levels (max_depth - 1) d)"
  by (auto simp: levels_def min_def)

lemma nest_levels:
  "map (\<lambda>i. nest (Suc d - i) x) [0..<Suc (Suc l)] = nest (Suc d) x # map (\<lambda>i. nest (d - i) x) [0..<Suc l]"
proof -
  have "[0..<Suc (Suc l)] = 0 # [Suc 0..<Suc (Suc l)]"
    by (simp add: upt_conv_Cons del: upt_Suc)
  also have "[Suc 0..<Suc (Suc l)] = map Suc [0..<Suc l]"
    by (simp only: map_Suc_upt)
  finally have "[0..<Suc (Suc l)] = 0 # map Suc [0..<Suc l]" .
  then show ?thesis by (simp add: comp_def del: upt_Suc)
qed

lemma record_fn_nest:
  assumes "is_leaf x"
  shows "levels max_depth d < fuel \<Longrightarrow>
         visit_collection fuel record_fn return_data max_depth (nest d x) context seen
         = Some (Inr (if return_data then nest d x else PNone), context,
                 seen @ map (\<lambda>i. nest (d - i) x) [0..<Suc (levels max_depth d)])"
proof (induction d arbitrary: max_depth fuel seen)
  case 0
  then obtain k where "fuel = Suc k" by (cases fuel) auto
  then show ?case using assms by (simp add: record_fn_leaf levels_def del: visit_collection.simps)
next
  case (Suc d)
  then obtain k where fuel: "fuel = Suc k" by (cases fuel) auto
  show ?case
  proof (cases "max_depth = 0")
    case True
    then show ?thesis
      by (simp add: fuel visit_collection_depth_zero record_fn_root levels_def del: visit_collection.simps)
  next
    case False
    with Suc.prems fuel have "levels (max_depth - 1) d < k" by (simp add: levels_Suc)
    from Suc.IH [OF this] have nested:
      "visit_nested k record_fn return_data max_depth context (nest d x) (seen @ [nest (Suc d) x])
       = Some (Inr (if return_data then nest d x else PNone),
               (seen @ [nest (Suc d) x]) @ map (\<lambda>i. nest (d - i) x) [0..<Suc (levels (max_depth - 1) d)])"
      by (simp add: visit_nested_def del: upt_Suc)
    show ?thesis
      unfolding fuel
      using False nested
      by (simp add: visit_collection_Suc record_fn_root basis_def descend_def with_items_def
            levels_Suc nest_levels del: visit_collection.simps upt_Suc)
  qed
qed

text \<open>
  C4. With depth budget 0 the transform is called on the node and nothing else is done:
  no child is visited. A budget that is not negative bounds the recursion, whatever
  the transform returns: the visit returns within \<open>max_depth + 1\<close> nested calls. In a
  list nested \<open>d\<close> deep the transform is called on the levels \<open>0, ..., max_depth\<close> only, one
  more level for each unit of budget, and on every level when the budget is negative.
  And the visit of \<open>{"a": {"b": {"c": 1}}}\<close> with budget 1, in copy mode, marks the root
  and the value of \<open>"a"\<close> and leaves \<open>{"c": 1}\<close> as it is: the transform is called on the
  root and on the keys and values one level down, and on nothing deeper.
\<close>

theorem depth_bounding:
  "visit_collection (Suc fuel) visit_fn return_data 0 expr context s =
     (case visit_expression visit_fn expr context s of
        (Inl e, context', s') \<Rightarrow> Some (Inl e, context', s')
      | (Inr result, context', s') \<Rightarrow> Some (Inr (if return_data then result else PNone), context', s'))
   \<and> (0 \<le> max_depth \<and> nat max_depth < k \<longrightarrow>
        visit_collection k visit_fn return_data max_depth expr context s \<noteq> None)
   \<and> (is_leaf x \<and> levels budget d < n \<longrightarrow>
        visit_collection n record_fn copy budget (nest d x) ctx seen
        = Some (Inr (if copy then nest d x else PNone), ctx,
                seen @ map (\<lambda>i. nest (d - i) x) [0..<Suc (levels budget d)]))
   \<and> visit_collection 2 add_marker_fn True 1 nested_example None []
     = Some (Inr (PDict Dict
                    [(PStr ''a'', PDict Dict [(PStr ''b'', PDict Dict [(PStr ''c'', PInt 1)]),
                                              (PStr ''marker'', PNone)]),
                     (PStr ''marker'', PNone)]),
             None,
             [nested_example, PStr ''a'', PDict Dict [(PStr ''b'', PDict Dict [(PStr ''c'', PInt 1)])],
              PStr ''marker'', PNone])"
proof -
  have example: "visit_collection 2 add_marker_fn True 1 nested_example None []
     = Some (Inr (PDict Dict
                    [(PStr ''a'', PDict Dict [(PStr ''b'', PDict Dict [(PStr ''c'', PInt 1)]),
                                              (PStr ''marker'', PNone)]),
                     (PStr ''marker'', PNone)]),
             None,
             [nested_example, PStr ''a'', PDict Dict [(PStr ''b'', PDict Dict [(PStr ''c'', PInt 1)])],
              PStr ''marker'', PNone])"
    by (simp add: nested_example_def numeral_2_eq_2 visit_expression_def add_marker_fn_def descend_def
          with_items_def make_dict_def dict_of_pairs_def)
  show ?thesis
    using visit_collection_depth_zero [of fuel visit_fn return_data expr "context" s]
      depth_budget_bounds_recursion [of max_depth k visit_fn return_data expr "context" s]
      record_fn_nest [of x budget d n copy ctx seen] example
    by blast
qed

theorem depth_bounding_witness:
  "visit_collection 2 add_marker_fn True 1 nested_example None [] \<noteq> None
   \<and> visit_collection 4 record_fn False 1 (nest 3 (PInt 1)) None []
     = Some (Inr PNone, None, [nest 3 (PInt 1), nest 2 (PInt 1)])
   \<and> visit_collection 4 record_fn False (- 1) (nest 3 (PInt 1)) None []
     = Some (Inr PNone, None, [nest 3 (PInt 1), nest 2 (PInt 1), nest 1 (PInt 1), nest 0 (PInt 1)])"
proof -
  have budget: "(0 :: int) \<le> 1 \<and> nat 1 < (2 :: nat)" by simp
  have returns: "visit_collection 2 add_marker_fn True 1 nested_example None [] \<noteq> None"
    using depth_bounding [of 0 add_marker_fn True nested_example None "[]" 1 2 PNone 0 0 1 False None "[]"]
      budget
    by blast
  have one: "is_leaf (PInt 1) \<and> levels 1 3 < 4" by (simp add: levels_def)
  have two_levels: "visit_collection 4 record_fn False 1 (nest 3 (PInt 1)) None []
     = Some (Inr PNone, None, [] @ map (\<lambda>i. nest (3 - i) (PInt 1)) [0..<Suc (levels 1 3)])"
    using depth_bounding [of 0 record_fn False PNone None "[]" 1 2 "PInt 1" 1 3 4 False None "[]"] one
    by (simp del: visit_collection.simps nest.simps upt_Suc)
  have unlimited: "is_leaf (PInt 1) \<and> levels (- 1) 3 < 4" by (simp add: levels_def)
  have all_levels: "visit_collection 4 record_fn False (- 1) (nest 3 (PInt 1)) None []
     = Some (Inr PNone, None, [] @ map (\<lambda>i. nest (3 - i) (PInt 1)) [0..<Suc (levels (- 1) 3)])"
    using depth_bounding [of 0 record_fn False PNone None "[]" 1 2 "PInt 1" "- 1" 3 4 False None "[]"]
      unlimited
    by (simp del: visit_collection.simps nest.simps upt_Suc)
  have shown: "[] @ map (\<lambda>i. nest (3 - i) (PInt 1)) [0..<Suc (levels 1 3)] = [nest 3 (PInt 1), nest 2 (PInt 1)]"
    "[] @ map (\<lambda>i. nest (3 - i) (PInt 1)) [0..<Suc (levels (- 1) 3)]
     = [nest 3 (PInt 1), nest 2 (PInt 1), nest 1 (PInt 1), nest 0 (PInt 1)]"
    by (simp_all add: levels_def eval_nat_numeral upt_rec)
  show ?thesis
    using returns two_levels all_levels unfolding shown by blast
qed

subsection \<open>Pydantic records\<close>

















subsection \<open>The identity transform\<close>



lemma dict_pairs_children: "dict_pairs (dict_children kvs) = kvs"
  by (induction kvs rule: dict_children.induct) auto
























section \<open>Properties of dict_to_flatdict and flatdict_to_dict\<close>






















end
